theory Spec2Isabelle
  imports Complex_Main
begin

section \<open>Data model\<close>

text \<open>
  The dataclass \<open>CastleData\<close> of \<^verbatim>\<open>automated-cultural-narrative-generator.py\<close>
  (lines 26-39). \<open>Optional\<close> fields are options, the \<open>raw_data\<close> dict is an
  association list, floats are reals.
\<close>

record CastleData =
  name :: string
  location :: string
  country :: string
  built_year :: "int option"
  architectural_style :: string
  historical_periods :: "string list"
  notable_rulers :: "string list"
  military_events :: "string list"
  coordinates :: "(real \<times> real) option"
  external_sources :: "string list"
  raw_data :: "(string \<times> string) list"

text \<open>
  The dict built by \<open>process_single_castle\<close> (lines 443-456). The dispatcher and the
  sink read two entries of it, \<open>narrative["castle_name"]\<close> and
  \<open>narrative["processingMetadata"]["dataQuality"]\<close>; all other entries are kept as one
  opaque text.
\<close>

record narrative =
  castle_name :: string
  sections :: string
  dataQuality :: real

text \<open>
  A raised \<open>Exception\<close>, identified by its message \<open>str(e)\<close>. An outcome of a
  per-item operation is \<open>Inl e\<close> (it raised \<open>e\<close>) or \<open>Inr v\<close> (it returned \<open>v\<close>).
\<close>

type_synonym exn = string

section \<open>The sink: table \<open>castle_narratives\<close>\<close>

datatype coltype = INTEGER | TEXT | REAL

datatype col_constraint = PRIMARY_KEY | AUTOINCREMENT | UNIQUE

type_synonym table_def = "string \<times> (string \<times> coltype \<times> col_constraint list) list"

text \<open>
  One row of the table. \<open>generated_narrative\<close> holds \<open>json.dumps(narrative)\<close>; the
  serialisation loses nothing of the dict, so the column is modelled by the narrative
  itself. \<open>source_data\<close> is never written and stays \<open>NULL\<close>.
\<close>

record row =
  col_id :: nat
  col_castle_name :: string
  col_country :: string
  col_generated_narrative :: narrative
  col_processing_timestamp :: real
  col_source_data :: "string option"
  col_quality_score :: real

text \<open>
  The database file: its schema objects, the rows of \<open>castle_narratives\<close> in rowid
  order, and the counter that \<open>AUTOINCREMENT\<close> keeps in \<open>sqlite_sequence\<close> (the largest
  rowid ever used).
\<close>

record database =
  schema :: "table_def list"
  castle_narratives :: "row list"
  sqlite_sequence :: nat

definition empty_database :: database where
  "empty_database = \<lparr>schema = [], castle_narratives = [], sqlite_sequence = 0\<rparr>"

definition castle_narratives_table :: table_def where
  "castle_narratives_table =
     (''castle_narratives'',
      [(''id'', INTEGER, [PRIMARY_KEY, AUTOINCREMENT]),
       (''castle_name'', TEXT, [UNIQUE]),
       (''country'', TEXT, []),
       (''generated_narrative'', TEXT, []),
       (''processing_timestamp'', REAL, []),
       (''source_data'', TEXT, []),
       (''quality_score'', REAL, [])])"

definition table_exists :: "string \<Rightarrow> database \<Rightarrow> bool" where
  "table_exists t db = (t \<in> set (map fst (schema db)))"

text \<open>
  \<open>setup_database\<close> (lines 396-414): \<open>CREATE TABLE IF NOT EXISTS castle_narratives\<close>.
\<close>

definition setup_database :: "database \<Rightarrow> database" where
  "setup_database db =
     (if table_exists ''castle_narratives'' db then db
      else db\<lparr>schema := schema db @ [castle_narratives_table]\<rparr>)"

text \<open>
  \<open>_store_narrative\<close> (lines 485-503): \<open>INSERT OR REPLACE\<close> of one row. The first
  argument is the value \<open>time.time()\<close> returns at line 498. \<open>castle_name\<close> is
  \<open>UNIQUE\<close>, so \<open>OR REPLACE\<close> deletes the rows that hold the new row's
  \<open>castle_name\<close> before it inserts; the new row takes the next \<open>AUTOINCREMENT\<close> id.
\<close>

definition store_narrative :: "real \<Rightarrow> narrative \<Rightarrow> database \<Rightarrow> database" where
  "store_narrative now narrative db =
     (let new_id = Suc (sqlite_sequence db);
          kept = filter (\<lambda>r. col_castle_name r \<noteq> castle_name narrative) (castle_narratives db);
          new_row = \<lparr>col_id = new_id,
                     col_castle_name = castle_name narrative,
                     col_country = ''Unknown'',
                     col_generated_narrative = narrative,
                     col_processing_timestamp = now,
                     col_source_data = None,
                     col_quality_score = dataQuality narrative\<rparr>
      in db\<lparr>castle_narratives := kept @ [new_row], sqlite_sequence := new_id\<rparr>)"

definition store_all :: "(real \<times> narrative) list \<Rightarrow> database \<Rightarrow> database" where
  "store_all writes db = fold (\<lambda>(now, narrative). store_narrative now narrative) writes db"



section \<open>The per-item operation\<close>

text \<open>
  \<open>process_single_castle\<close> (lines 435-465). Lines 437-460 (enrichment over the network
  and the template generation) are the parameter \<open>generate\<close>: for a castle it raises
  or yields the narrative dict. On success line 463 stores the narrative and line 465
  returns it; \<open>now\<close> is the clock reading of that store. A castle whose generation
  raises never reaches line 463.
\<close>

definition process_single_castle ::
  "(CastleData \<Rightarrow> exn + narrative) \<Rightarrow> real \<Rightarrow> CastleData \<Rightarrow> database
     \<Rightarrow> (exn + narrative) \<times> database" where
  "process_single_castle generate now castle db =
     (case generate castle of
        Inl e \<Rightarrow> (Inl e, db)
      | Inr narrative \<Rightarrow> (Inr narrative, store_narrative now narrative db))"

section \<open>One batch\<close>

text \<open>
  What a batch does, in the order it does it: line 420 creates the task of
  \<open>castle_batch[i]\<close>, a task settles (it returned or raised), line 429 logs an error.
\<close>

datatype batch_event =
    Task_created nat CastleData
  | Task_done nat
  | Error_processing string exn

text \<open>
  The tasks of a batch run concurrently on the event loop; which task settles when is
  not decided by the program. It is the parameter \<open>completions\<close>: the indices of the
  tasks in the order they settle, each with the clock reading at that moment. Every task
  settles once when \<open>all_settle\<close> holds.
\<close>

definition all_settle :: "(nat \<times> real) list \<Rightarrow> CastleData list \<Rightarrow> bool" where
  "all_settle completions castle_batch =
     (sort (map fst completions) = [0..<length castle_batch])"

definition settle ::
  "(CastleData \<Rightarrow> exn + narrative) \<Rightarrow> CastleData list \<Rightarrow> nat \<times> real \<Rightarrow> database \<Rightarrow> database" where
  "settle generate castle_batch c db =
     (case c of (i, now) \<Rightarrow>
        if i < length castle_batch
        then snd (process_single_castle generate now (castle_batch ! i) db)
        else db)"

text \<open>
  \<open>asyncio.gather(*tasks, return_exceptions=True)\<close> (line 423): the outcomes of the
  tasks in the order of the tasks, a raised exception as a value; the sink has received
  the writes of the tasks in the order they settled. What a task returns or raises
  depends neither on the clock nor on the sink (lemma \<open>process_single_castle_outcome\<close>),
  so the outcomes are read off at clock reading 0 and the sink before the batch. An
  exception that is no \<open>Exception\<close> (a cancellation, a keyboard interrupt) is outside
  the model, as is a task that never settles.
\<close>

definition gather ::
  "(CastleData \<Rightarrow> exn + narrative) \<Rightarrow> (nat \<times> real) list \<Rightarrow> CastleData list \<Rightarrow> database
     \<Rightarrow> (exn + narrative) list \<times> database" where
  "gather generate completions castle_batch db =
     (map (\<lambda>castle. fst (process_single_castle generate 0 castle db)) castle_batch,
      fold (settle generate castle_batch) completions db)"

text \<open>
  The loop of lines 426-431 over \<open>enumerate(results)\<close>; \<open>isinstance(result, Exception)\<close>
  is the case \<open>Inl\<close>.
\<close>

fun filter_results ::
  "CastleData list \<Rightarrow> (nat \<times> (exn + narrative)) list \<Rightarrow> narrative list \<times> batch_event list
     \<Rightarrow> narrative list \<times> batch_event list" where
  "filter_results castle_batch [] acc = acc"
| "filter_results castle_batch ((i, result) # rest) (successful_results, logged) =
     (case result of
        Inl e \<Rightarrow>
          filter_results castle_batch rest
            (successful_results, logged @ [Error_processing (name (castle_batch ! i)) e])
      | Inr v \<Rightarrow>
          filter_results castle_batch rest (successful_results @ [v], logged))"

text \<open>\<open>process_castle_batch\<close> (lines 416-433).\<close>

definition process_castle_batch ::
  "(CastleData \<Rightarrow> exn + narrative) \<Rightarrow> (nat \<times> real) list \<Rightarrow> CastleData list \<Rightarrow> database
     \<Rightarrow> narrative list \<times> batch_event list \<times> database" where
  "process_castle_batch generate completions castle_batch db =
     (let tasks = map (\<lambda>(i, castle). Task_created i castle) (enumerate 0 castle_batch);
          (results, db') = gather generate completions castle_batch db;
          settled = map (\<lambda>c. Task_done (fst c)) completions;
          (successful_results, logged) =
             filter_results castle_batch (enumerate 0 results) ([], [])
      in (successful_results, tasks @ settled @ logged, db'))"


definition successes :: "(CastleData \<Rightarrow> exn + narrative) \<Rightarrow> CastleData list \<Rightarrow> narrative list" where
  "successes generate castle_batch =
     concat (map (\<lambda>castle. case generate castle of Inl e \<Rightarrow> [] | Inr v \<Rightarrow> [v]) castle_batch)"

definition failures :: "(CastleData \<Rightarrow> exn + narrative) \<Rightarrow> CastleData list \<Rightarrow> batch_event list" where
  "failures generate castle_batch =
     concat (map (\<lambda>castle. case generate castle of
                              Inl e \<Rightarrow> [Error_processing (name castle) e]
                            | Inr v \<Rightarrow> []) castle_batch)"

fun is_error :: "batch_event \<Rightarrow> bool" where
  "is_error (Error_processing n e) = True"
| "is_error (Task_created i c) = False"
| "is_error (Task_done i) = False"

section \<open>The dispatcher\<close>

text \<open>
  Python's \<open>range(start, stop, step)\<close> as the list it iterates over; a zero step
  raises \<open>ValueError\<close>.
\<close>

function range_up :: "int \<Rightarrow> int \<Rightarrow> int \<Rightarrow> int list" where
  "range_up i stop step =
     (if 0 < step \<and> i < stop then i # range_up (i + step) stop step else [])"
  by pat_completeness auto
termination
  by (relation "measure (\<lambda>(i, stop, step). nat (stop - i))") auto

function range_down :: "int \<Rightarrow> int \<Rightarrow> int \<Rightarrow> int list" where
  "range_down i stop step =
     (if step < 0 \<and> stop < i then i # range_down (i + step) stop step else [])"
  by pat_completeness auto
termination
  by (relation "measure (\<lambda>(i, stop, step). nat (i - stop))") auto

definition py_range :: "int \<Rightarrow> int \<Rightarrow> int \<Rightarrow> exn + int list" where
  "py_range start stop step =
     (if step = 0 then Inl ''range() arg 3 must not be zero''
      else if 0 < step then Inr (range_up start stop step)
      else Inr (range_down start stop step))"

text \<open>
  Python's \<open>xs[i:j]\<close>: a negative index counts from the end, and both ends are clipped
  to the list.
\<close>

definition clip_index :: "nat \<Rightarrow> int \<Rightarrow> nat" where
  "clip_index n i = (if i < 0 then nat (max 0 (int n + i)) else min (nat i) n)"

definition slice :: "'a list \<Rightarrow> int \<Rightarrow> int \<Rightarrow> 'a list" where
  "slice xs i j =
     (let a = clip_index (length xs) i; b = clip_index (length xs) j
      in take (b - a) (drop a xs))"

text \<open>
  The head of the loop (lines 516-517): every \<open>i\<close> of
  \<open>range(0, total_castles, batch_size)\<close> with its
  \<open>batch = castle_data[i:i + batch_size]\<close>.
\<close>

definition batches :: "CastleData list \<Rightarrow> int \<Rightarrow> exn + (int \<times> CastleData list) list" where
  "batches castle_data batch_size =
     (case py_range 0 (int (length castle_data)) batch_size of
        Inl e \<Rightarrow> Inl e
      | Inr starts \<Rightarrow> Inr (map (\<lambda>i. (i, slice castle_data i (i + batch_size))) starts))"

text \<open>
  What a run does, in order: the log lines (507, 558, 518, 524, 533), the events of the
  batch in progress under the number of that batch (\<open>i//batch_size + 1\<close>, as line 518
  logs it), and the pause of line 527.
\<close>

datatype event =
    Info_Starting string
  | Info_Loaded nat
  | Info_Processing_batch int nat
  | In_batch int batch_event
  | Info_Completed_batch nat nat
  | Sleep nat
  | Info_Completed nat nat

record run_state =
  processed_count :: nat
  sink :: database
  events :: "event list"

text \<open>
  The body of the loop (lines 518-527), once per batch. \<open>completions k\<close> is the order
  in which the tasks of batch number \<open>k\<close> settle. \<open>process_castle_batch\<close> has no path
  that raises (a task's exception is a value of \<open>gather\<close>), so the handler of lines
  529-531 never runs and has no branch here.
\<close>

fun batch_loop ::
  "(CastleData \<Rightarrow> exn + narrative) \<Rightarrow> (int \<Rightarrow> (nat \<times> real) list) \<Rightarrow> nat \<Rightarrow> int
     \<Rightarrow> (int \<times> CastleData list) list \<Rightarrow> run_state \<Rightarrow> run_state" where
  "batch_loop generate completions total_castles batch_size [] s = s"
| "batch_loop generate completions total_castles batch_size ((i, batch) # rest) s =
     (let k = i div batch_size + 1;
          (results, batch_events, db') =
             process_castle_batch generate (completions k) batch (sink s);
          count = processed_count s + length results
      in batch_loop generate completions total_castles batch_size rest
           \<lparr>processed_count = count,
            sink = db',
            events = events s @ [Info_Processing_batch k (length batch)]
                     @ map (In_batch k) batch_events
                     @ [Info_Completed_batch count total_castles, Sleep 1]\<rparr>)"

text \<open>
  \<open>process_thousands_of_castles\<close> from line 512 on, for the list \<open>castle_data\<close> that
  line 510 loaded: the value it returns or the exception it raises, with the sink and the
  events it leaves behind.
\<close>

definition process_castles ::
  "(CastleData \<Rightarrow> exn + narrative) \<Rightarrow> (int \<Rightarrow> (nat \<times> real) list) \<Rightarrow> CastleData list \<Rightarrow> int
     \<Rightarrow> database \<Rightarrow> event list \<Rightarrow> (exn + nat) \<times> database \<times> event list" where
  "process_castles generate completions castle_data batch_size db logged =
     (let total_castles = length castle_data
      in case batches castle_data batch_size of
           Inl e \<Rightarrow> (Inl e, db, logged)
         | Inr todo \<Rightarrow>
             (let s = batch_loop generate completions total_castles batch_size todo
                        \<lparr>processed_count = 0, sink = db, events = logged\<rparr>
              in (Inr (processed_count s), sink s,
                  events s @ [Info_Completed (processed_count s) total_castles])))"

text \<open>
  \<open>_load_external_castle_data\<close> (lines 536-559) ignores its argument and returns one
  sample castle.
\<close>

definition sample_castles :: "CastleData list" where
  "sample_castles =
     [\<lparr>name = ''Windsor Castle'',
       location = ''Windsor, England'',
       country = ''United Kingdom'',
       built_year = Some 1070,
       architectural_style = ''Norman'',
       historical_periods = [''Norman'', ''Medieval'', ''Tudor''],
       notable_rulers = [''William the Conqueror'', ''Edward III'', ''Henry VIII''],
       military_events = [''English Civil War'', ''World War II''],
       coordinates = Some (51.4839, - 0.6044),
       external_sources = [''Wikipedia'', ''Historic England'', ''Royal Collection''],
       raw_data = []\<rparr>]"

definition load_external_castle_data :: "string \<Rightarrow> CastleData list \<times> event list" where
  "load_external_castle_data source_path =
     (sample_castles, [Info_Loaded (length sample_castles)])"

text \<open>
  \<open>process_thousands_of_castles\<close> (lines 505-534) on a processor whose constructor
  (lines 391-394) has run \<open>setup_database\<close> on the database file \<open>db\<close>.
\<close>

definition process_thousands_of_castles ::
  "(CastleData \<Rightarrow> exn + narrative) \<Rightarrow> (int \<Rightarrow> (nat \<times> real) list) \<Rightarrow> string \<Rightarrow> int
     \<Rightarrow> database \<Rightarrow> (exn + nat) \<times> database \<times> event list" where
  "process_thousands_of_castles generate completions castle_data_source batch_size db =
     (let (castle_data, loaded) = load_external_castle_data castle_data_source
      in process_castles generate completions castle_data batch_size (setup_database db)
           (Info_Starting castle_data_source # loaded))"

text \<open>Reading a run's events.\<close>

fun is_sleep :: "event \<Rightarrow> bool" where
  "is_sleep (Sleep d) = True"
| "is_sleep e = False"

fun pause :: "event \<Rightarrow> nat" where
  "pause (Sleep d) = d"
| "pause e = 0"

fun in_batch :: "event \<Rightarrow> bool" where
  "in_batch (In_batch k e) = True"
| "in_batch e = False"

fun batch_nos :: "event list \<Rightarrow> int list" where
  "batch_nos [] = []"
| "batch_nos (In_batch k e # es) = k # batch_nos es"
| "batch_nos (e # es) = batch_nos es"

fun created_castle :: "event \<Rightarrow> CastleData list" where
  "created_castle (In_batch k (Task_created i castle)) = [castle]"
| "created_castle e = []"

text \<open>The events of one batch, which do not depend on the sink.\<close>

definition batch_trace ::
  "(CastleData \<Rightarrow> exn + narrative) \<Rightarrow> (nat \<times> real) list \<Rightarrow> CastleData list
     \<Rightarrow> batch_event list" where
  "batch_trace generate completions castle_batch =
     map (\<lambda>(i, castle). Task_created i castle) (enumerate 0 castle_batch)
       @ map (\<lambda>c. Task_done (fst c)) completions
       @ failures generate castle_batch"

section \<open>Sample inputs\<close>

text \<open>
  A castle that has a name and nothing else, and an operation that raises for the castle
  of one name and returns a narrative for every other castle.
\<close>

definition castle_named :: "string \<Rightarrow> CastleData" where
  "castle_named n =
     \<lparr>name = n, location = '''', country = '''', built_year = None,
      architectural_style = '''', historical_periods = [], notable_rulers = [],
      military_events = [], coordinates = None, external_sources = [], raw_data = []\<rparr>"

definition failing_for :: "string \<Rightarrow> CastleData \<Rightarrow> exn + narrative" where
  "failing_for bad castle =
     (if name castle = bad then Inl ''operation failed''
      else Inr \<lparr>castle_name = name castle, sections = '''', dataQuality = 1\<rparr>)"

section \<open>The sink is idempotent\<close>

lemma setup_database_twice: "setup_database (setup_database db) = setup_database db"
  by (simp add: setup_database_def table_exists_def castle_narratives_table_def)

lemma setup_database_funpow: "(setup_database ^^ Suc n) db = setup_database db"
  by (induction n) (simp_all add: setup_database_twice)

lemma setup_database_names:
  "map fst (schema (setup_database db)) =
     (if table_exists ''castle_narratives'' db then map fst (schema db)
      else map fst (schema db) @ [''castle_narratives''])"
  by (simp add: setup_database_def castle_narratives_table_def)

lemma setup_database_distinct:
  "distinct (map fst (schema db)) \<Longrightarrow> distinct (map fst (schema (setup_database db)))"
  by (simp add: setup_database_names table_exists_def)

lemma setup_database_rows:
  "castle_narratives (setup_database db) = castle_narratives db \<and> sqlite_sequence (setup_database db) = sqlite_sequence db"
  by (simp add: setup_database_def)






lemma store_all_append: "store_all (xs @ ys) db = store_all ys (store_all xs db)"
  by (simp add: store_all_def)


text \<open>
  Claim C9. Calling \<open>setup_database\<close> any number of times, also on the database file
  an earlier process left, has no failing path and duplicates no schema object: after
  \<open>n \<ge> 1\<close> calls the database is the one after one call, a schema without duplicate
  names keeps none, a fresh file holds the table once, and no row is touched.
\<close>

theorem setup_database_idempotent:
  "(1 \<le> n \<longrightarrow> (setup_database ^^ n) db = setup_database db)
   \<and> (distinct (map fst (schema db)) \<longrightarrow>
        distinct (map fst (schema ((setup_database ^^ n) db))))
   \<and> schema ((setup_database ^^ Suc n) empty_database) = [castle_narratives_table]
   \<and> castle_narratives ((setup_database ^^ n) db) = castle_narratives db
   \<and> sqlite_sequence ((setup_database ^^ n) db) = sqlite_sequence db"
proof (intro conjI impI)
  assume "1 \<le> n"
  then obtain m where "n = Suc m" by (cases n) auto
  then show "(setup_database ^^ n) db = setup_database db"
    using setup_database_funpow by simp
next
  assume "distinct (map fst (schema db))"
  then show "distinct (map fst (schema ((setup_database ^^ n) db)))"
    by (induction n) (simp_all add: setup_database_distinct)
next
  show "schema ((setup_database ^^ Suc n) empty_database) = [castle_narratives_table]"
    unfolding setup_database_funpow
    by (simp add: setup_database_def table_exists_def empty_database_def)
next
  show "castle_narratives ((setup_database ^^ n) db) = castle_narratives db"
    by (induction n) (simp_all add: setup_database_rows)
next
  show "sqlite_sequence ((setup_database ^^ n) db) = sqlite_sequence db"
    by (induction n) (simp_all add: setup_database_rows)
qed

theorem setup_database_idempotent_witness:
  "(1::nat) \<le> 3
   \<and> (setup_database ^^ 3) (setup_database empty_database) = setup_database (setup_database empty_database)
   \<and> distinct (map fst (schema (setup_database empty_database)))
   \<and> distinct (map fst (schema ((setup_database ^^ 3) (setup_database empty_database))))
   \<and> schema ((setup_database ^^ 3) (setup_database empty_database)) = [castle_narratives_table]"
proof -
  have d: "distinct (map fst (schema (setup_database empty_database)))"
    by (simp add: setup_database_def table_exists_def empty_database_def)
  have s: "schema (setup_database (setup_database empty_database)) = [castle_narratives_table]"
    by (simp add: setup_database_def table_exists_def empty_database_def
        castle_narratives_table_def)
  show ?thesis
    using setup_database_idempotent [of 3 "setup_database empty_database"] d s by simp
qed



section \<open>What a batch returns and logs\<close>

lemma process_single_castle_outcome:
  "fst (process_single_castle generate now castle db) = generate castle"
  by (simp add: process_single_castle_def split: sum.splits)

lemma successes_Nil: "successes generate [] = []"
  by (simp add: successes_def)

lemma successes_Cons:
  "successes generate (c # cs) =
     (case generate c of Inl e \<Rightarrow> [] | Inr v \<Rightarrow> [v]) @ successes generate cs"
  by (simp add: successes_def)

lemma successes_append:
  "successes generate (xs @ ys) = successes generate xs @ successes generate ys"
  by (simp add: successes_def)

lemma failures_Nil: "failures generate [] = []"
  by (simp add: failures_def)

lemma failures_Cons:
  "failures generate (c # cs) =
     (case generate c of Inl e \<Rightarrow> [Error_processing (name c) e] | Inr v \<Rightarrow> [])
       @ failures generate cs"
  by (simp add: failures_def)




lemma length_outcomes:
  "length (successes generate cs) + length (failures generate cs) = length cs"
  by (induction cs) (auto simp add: successes_Nil successes_Cons failures_Nil failures_Cons split: sum.splits)

lemma filter_results_drop:
  "filter_results cb (enumerate k (map generate (drop k cb))) (good, logged) =
     (good @ successes generate (drop k cb), logged @ failures generate (drop k cb))"
proof (induction "length cb - k" arbitrary: k good logged)
  case 0
  then show ?case by (simp add: successes_Nil failures_Nil)
next
  case (Suc m)
  then have k: "k < length cb" by simp
  then have d: "drop k cb = cb ! k # drop (Suc k) cb"
    by (simp add: Cons_nth_drop_Suc)
  from Suc have m: "m = length cb - Suc k" by simp
  show ?case
    by (cases "generate (cb ! k)")
       (simp_all add: d successes_Cons failures_Cons Suc.hyps(1) [OF m])
qed

lemma filter_results_all:
  "filter_results cb (enumerate 0 (map generate cb)) ([], []) =
     (successes generate cb, failures generate cb)"
  using filter_results_drop [of cb 0 generate "[]" "[]"] by simp

lemma process_castle_batch_eq:
  "process_castle_batch generate completions cb db =
     (successes generate cb,
      map (\<lambda>(i, castle). Task_created i castle) (enumerate 0 cb)
        @ map (\<lambda>c. Task_done (fst c)) completions
        @ failures generate cb,
      fold (settle generate cb) completions db)"
  by (simp add: process_castle_batch_def gather_def process_single_castle_outcome
      filter_results_all)

lemma filter_is_error_failures: "filter is_error (failures generate cs) = failures generate cs"
  by (induction cs) (auto simp add: failures_Nil failures_Cons split: sum.splits)

lemma filter_is_error_batch:
  "filter is_error (fst (snd (process_castle_batch generate completions cb db))) =
     failures generate cb"
proof -
  have a: "filter is_error (map (\<lambda>(i, castle). Task_created i castle) xs) = []" for xs
    by (induction xs) auto
  have b: "filter is_error (map (\<lambda>c. Task_done (fst c)) ys) = []" for ys :: "(nat \<times> real) list"
    by (induction ys) auto
  show ?thesis
    by (simp add: process_castle_batch_eq a b filter_is_error_failures)
qed

section \<open>The partition into batches\<close>

declare range_up.simps [simp del]
declare range_down.simps [simp del]

lemma div_step:
  fixes a :: int
  shows "0 < B \<Longrightarrow> (a + B - 1) div B = (a - 1) div B + 1"
proof -
  assume B: "0 < B"
  have "a + B - 1 = (a - 1) + B" by simp
  with B show ?thesis by (simp only: div_add_self2)
qed

lemma div_nonpos:
  fixes a :: int
  assumes "0 < B" and "a \<le> 0"
  shows "(a + B - 1) div B \<le> 0"
proof -
  from assms have "\<not> B \<le> a + B - 1" by simp
  with pos_imp_zdiv_pos_iff [OF assms(1), of "a + B - 1"]
  have "\<not> 0 < (a + B - 1) div B" by blast
  then show ?thesis by simp
qed

lemma ceiling_div_int:
  fixes N :: int
  assumes "0 < B"
  shows "- (- N div B) = (N + B - 1) div B"
proof -
  let ?q = "(- N) div B" and ?r = "(- N) mod B"
  have r: "0 \<le> ?r" "?r < B" using assms by simp_all
  have "- N = ?q * B + ?r" by simp
  then have "N + B - 1 = (B - 1 - ?r) + (- ?q) * B" by (simp add: algebra_simps)
  then have "(N + B - 1) div B = ((B - 1 - ?r) + (- ?q) * B) div B" by (simp only:)
  also have "\<dots> = - ?q + (B - 1 - ?r) div B"
    using assms by (simp only: div_mult_self1) 
  also have "(B - 1 - ?r) div B = 0"
    using r by simp
  finally show ?thesis by simp
qed

lemma ceiling_div:
  "0 < B \<Longrightarrow> \<lceil>real_of_int N / real_of_int B\<rceil> = (N + B - 1) div B"
  by (simp only: ceiling_divide_eq_div ceiling_div_int)


lemma slice_batch:
  assumes "0 \<le> i" and "0 < B"
  shows "slice xs i (i + B) = take (nat B) (drop (nat i) xs)"
proof (cases "nat (i + B) \<le> length xs")
  case True
  with assms show ?thesis
    by (simp add: slice_def clip_index_def Let_def min_def nat_add_distrib)
next
  case False
  with assms have "length (drop (nat i) xs) \<le> nat B"
    by (simp add: nat_add_distrib)
  with False assms show ?thesis
    by (simp add: slice_def clip_index_def Let_def min_def)
qed

lemma range_up_map:
  "0 < B \<Longrightarrow> range_up i N B = map (\<lambda>k. i + int k * B) [0..<nat ((N - i + B - 1) div B)]"
proof (induction i N B rule: range_up.induct)
  case (1 i stop step)
  show ?case
  proof (cases "i < stop")
    case True
    let ?n = "nat ((stop - (i + step) + step - 1) div step)"
    have "(stop - i + step - 1) div step = (stop - i - 1) div step + 1"
      using 1(2) by (rule div_step)
    moreover have "0 \<le> (stop - i - 1) div step"
      using True 1(2) by (simp add: pos_imp_zdiv_nonneg_iff)
    ultimately have n: "nat ((stop - i + step - 1) div step) = Suc ?n"
      by (simp add: Suc_nat_eq_nat_zadd1 algebra_simps)
    have "range_up i stop step = i # range_up (i + step) stop step"
      using True 1(2) by (simp add: range_up.simps [of i])
    also have "\<dots> = i # map (\<lambda>k. i + step + int k * step) [0..<?n]"
      using 1(1) True 1(2) by simp
    also have "\<dots> = map (\<lambda>k. i + int k * step) [0..<Suc ?n]"
      by (simp add: upt_conv_Cons map_Suc_upt [symmetric] algebra_simps del: upt_Suc)
    finally show ?thesis by (simp only: n)
  next
    case False
    then have "(stop - i + step - 1) div step \<le> 0"
      using 1(2) by (simp add: div_nonpos)
    with False show ?thesis by (simp add: range_up.simps [of i])
  qed
qed


lemma batches_pos:
  assumes "0 < B"
  shows "batches xs B =
     Inr (map (\<lambda>k. (int k * B, take (nat B) (drop (k * nat B) xs)))
            [0..<nat \<lceil>real (length xs) / real_of_int B\<rceil>])"
proof -
  have c: "\<lceil>real (length xs) / real_of_int B\<rceil> = (int (length xs) - 0 + B - 1) div B"
    using ceiling_div [OF assms, of "int (length xs)"] by simp
  have "slice xs (int k * B) (int k * B + B) = take (nat B) (drop (k * nat B) xs)" for k
    using assms by (simp add: slice_batch nat_mult_distrib)
  then show ?thesis
    using assms by (simp add: batches_def py_range_def range_up_map c)
qed

lemma concat_chunks:
  "0 < b \<Longrightarrow> length xs \<le> n * b \<Longrightarrow>
     concat (map (\<lambda>k. take b (drop (k * b) xs)) [0..<n]) = xs"
proof (induction n arbitrary: xs)
  case 0
  then show ?case by simp
next
  case (Suc n)
  have "concat (map (\<lambda>k. take b (drop (k * b) xs)) [0..<Suc n]) =
        take b xs @ concat (map (\<lambda>k. take b (drop (k * b) (drop b xs))) [0..<n])"
    by (simp add: upt_conv_Cons map_Suc_upt [symmetric] add.commute comp_def del: upt_Suc)
  also have "concat (map (\<lambda>k. take b (drop (k * b) (drop b xs))) [0..<n]) = drop b xs"
    using Suc.prems by (intro Suc.IH) simp_all
  finally show ?case by simp
qed

lemma ceiling_covers:
  assumes "0 < B"
  shows "n \<le> nat \<lceil>real n / real_of_int B\<rceil> * nat B"
proof -
  have "real n / real_of_int B \<le> real_of_int \<lceil>real n / real_of_int B\<rceil>"
    by (rule le_of_int_ceiling)
  moreover have "0 < real_of_int B" using assms by simp
  ultimately have "real n \<le> real_of_int \<lceil>real n / real_of_int B\<rceil> * real_of_int B"
    by (simp only: pos_divide_le_eq)
  then have "int n \<le> \<lceil>real n / real_of_int B\<rceil> * B"
    by (metis of_int_le_iff of_int_mult of_int_of_nat_eq)
  moreover have "0 \<le> \<lceil>real n / real_of_int B\<rceil>"
  proof -
    have "0 \<le> real n / real_of_int B" using assms by simp
    then have "- 1 < real n / real_of_int B" by linarith
    then show ?thesis by (simp only: zero_le_ceiling)
  qed
  ultimately show ?thesis using assms
    by (metis nat_int nat_mono nat_mult_distrib)
qed

lemma batches_concat:
  assumes "0 < B" and "batches xs B = Inr todo"
  shows "concat (map snd todo) = xs"
proof -
  from assms have "todo = map (\<lambda>k. (int k * B, take (nat B) (drop (k * nat B) xs)))
            [0..<nat \<lceil>real (length xs) / real_of_int B\<rceil>]"
    by (simp add: batches_pos)
  then have "map snd todo =
      map (\<lambda>k. take (nat B) (drop (k * nat B) xs)) [0..<nat \<lceil>real (length xs) / real_of_int B\<rceil>]"
    by (simp add: comp_def)
  then show ?thesis
    using assms(1) concat_chunks [of "nat B" xs] ceiling_covers [OF assms(1), of "length xs"]
    by simp
qed



section \<open>The loop over the batches\<close>

lemma batch_loop_count:
  "processed_count (batch_loop generate completions tot B todo s) =
     processed_count s + length (successes generate (concat (map snd todo)))"
proof (induction todo arbitrary: s)
  case Nil
  then show ?case by (simp add: successes_Nil)
next
  case (Cons a todo)
  obtain i b where a: "a = (i, b)" by (cases a)
  show ?case
    by (simp add: a Let_def process_castle_batch_eq Cons.IH successes_append)
qed

lemma batch_loop_sink:
  "sink (batch_loop generate completions tot B todo s) =
     fold (\<lambda>(i, b). fold (settle generate b) (completions (i div B + 1))) todo (sink s)"
proof (induction todo arbitrary: s)
  case Nil
  then show ?case by simp
next
  case (Cons a todo)
  obtain i b where a: "a = (i, b)" by (cases a)
  show ?case
    by (simp add: a Let_def process_castle_batch_eq Cons.IH)
qed

lemma batch_loop_sleeps:
  "filter is_sleep (events (batch_loop generate completions tot B todo s)) =
     filter is_sleep (events s) @ replicate (length todo) (Sleep 1)"
proof (induction todo arbitrary: s)
  case Nil
  then show ?case by simp
next
  case (Cons a todo)
  obtain i b where a: "a = (i, b)" by (cases a)
  have f: "filter is_sleep (map (In_batch k) es) = []" for k es
    by (induction es) simp_all
  show ?case
    by (simp add: a Let_def process_castle_batch_eq Cons.IH f replicate_append_same)
qed

lemma batch_loop_tasks:
  "filter in_batch (events (batch_loop generate completions tot B todo s)) =
     filter in_batch (events s)
       @ concat (map (\<lambda>(i, b). map (In_batch (i div B + 1))
                    (batch_trace generate (completions (i div B + 1)) b)) todo)"
proof (induction todo arbitrary: s)
  case Nil
  then show ?case by simp
next
  case (Cons a todo)
  obtain i b where a: "a = (i, b)" by (cases a)
  have f: "filter in_batch (map (In_batch k) es) = map (In_batch k) es" for k es
    by (induction es) simp_all
  show ?case
    by (simp add: a Let_def process_castle_batch_eq Cons.IH f batch_trace_def)
qed


section \<open>Failure isolation and the order of results\<close>











text \<open>
  Claim C10. Every item of a batch has exactly one outcome: the returned results and the
  logged errors together are as many as the items of the batch, the results being those
  of the castles that succeeded and the errors those of the castles that raised.
\<close>

theorem batch_outcome_conservation:
  "length (fst (process_castle_batch generate completions castle_batch db))
     + length (filter is_error
         (fst (snd (process_castle_batch generate completions castle_batch db))))
     = length castle_batch
   \<and> fst (process_castle_batch generate completions castle_batch db) =
       successes generate castle_batch
   \<and> filter is_error (fst (snd (process_castle_batch generate completions castle_batch db))) =
       failures generate castle_batch"
proof -
  have "fst (process_castle_batch generate completions castle_batch db) =
       successes generate castle_batch"
    by (simp add: process_castle_batch_eq)
  then show ?thesis
    by (simp add: filter_is_error_batch length_outcomes)
qed

section \<open>Partition fidelity\<close>

lemma created_castle_filter:
  "concat (map created_castle (filter in_batch es)) = concat (map created_castle es)"
  by (induction es rule: batch_nos.induct) simp_all

lemma created_castle_tasks:
  "concat (map created_castle
     (map (In_batch k) (map (\<lambda>(i, castle). Task_created i castle) (enumerate n cb)))) = cb"
  by (induction cb arbitrary: n) simp_all

lemma created_castle_done:
  "concat (map created_castle (map (In_batch k) (map (\<lambda>c. Task_done (fst c)) cs))) = []"
  by (induction cs) simp_all

lemma created_castle_failures:
  "concat (map created_castle (map (In_batch k) (failures generate cb))) = []"
  by (induction cb) (auto simp add: failures_Nil failures_Cons split: sum.splits)

lemma created_castle_batch_trace:
  "concat (map created_castle (map (In_batch k) (batch_trace generate cs cb))) = cb"
  using created_castle_tasks [of k 0 cb] created_castle_done [of k cs]
    created_castle_failures [of k generate cb]
  by (simp add: batch_trace_def)

lemma created_castle_todo:
  "concat (map created_castle
     (concat (map (\<lambda>(i, b). map (In_batch (f i)) (batch_trace generate (completions (f i)) b))
        todo))) = concat (map snd todo)"
proof (induction todo)
  case Nil
  then show ?case by simp
next
  case (Cons a todo)
  obtain i b where a: "a = (i, b)" by (cases a)
  show ?case
    using Cons.IH created_castle_batch_trace [of "f i" generate "completions (f i)" b]
    by (simp add: a)
qed

lemma batch_loop_created:
  "concat (map created_castle (events (batch_loop generate completions tot B todo s))) =
     concat (map created_castle (events s)) @ concat (map snd todo)"
proof -
  have "concat (map created_castle (events (batch_loop generate completions tot B todo s))) =
        concat (map created_castle
          (filter in_batch (events (batch_loop generate completions tot B todo s))))"
    by (simp only: created_castle_filter)
  also have "\<dots> = concat (map created_castle (filter in_batch (events s)))
     @ concat (map created_castle
         (concat (map (\<lambda>(i, b). map (In_batch (i div B + 1))
                    (batch_trace generate (completions (i div B + 1)) b)) todo)))"
    by (simp only: batch_loop_tasks map_append concat_append)
  also have "\<dots> = concat (map created_castle (events s)) @ concat (map snd todo)"
    by (simp only: created_castle_filter created_castle_todo [where f = "\<lambda>i. i div B + 1"])
  finally show ?thesis .
qed

lemma process_castles_events:
  "batches castle_data B = Inr todo \<Longrightarrow>
     snd (snd (process_castles generate completions castle_data B db logged)) =
       events (batch_loop generate completions (length castle_data) B todo
                 \<lparr>processed_count = 0, sink = db, events = logged\<rparr>)
         @ [Info_Completed (length (successes generate (concat (map snd todo))))
              (length castle_data)]"
  by (simp add: process_castles_def Let_def batch_loop_count)

text \<open>
  Claim C2. For a positive \<open>batch_size\<close> the loop forms \<open>ceil(N / batch_size)\<close>
  batches, batch \<open>k\<close> being the \<open>batch_size\<close> items from index \<open>k * batch_size\<close> on
  (fewer in the last), their concatenation in order is the list, and the tasks of a run
  are created for the castles of the list in the order of the list.
\<close>

theorem partition_fidelity:
  assumes "0 < batch_size"
  shows "batches castle_data batch_size =
           Inr (map (\<lambda>k. (int k * batch_size,
                          take (nat batch_size) (drop (k * nat batch_size) castle_data)))
                  [0..<nat \<lceil>real (length castle_data) / real_of_int batch_size\<rceil>])
       \<and> length (projr (batches castle_data batch_size)) =
           nat \<lceil>real (length castle_data) / real_of_int batch_size\<rceil>
       \<and> concat (map snd (projr (batches castle_data batch_size))) = castle_data
       \<and> concat (map created_castle
            (snd (snd (process_castles generate completions castle_data batch_size db [])))) =
           castle_data"
proof -
  let ?todo = "map (\<lambda>k. (int k * batch_size,
                          take (nat batch_size) (drop (k * nat batch_size) castle_data)))
                  [0..<nat \<lceil>real (length castle_data) / real_of_int batch_size\<rceil>]"
  have b: "batches castle_data batch_size = Inr ?todo"
    using assms by (rule batches_pos)
  have c: "concat (map snd ?todo) = castle_data"
    using assms b by (rule batches_concat)
  have "concat (map created_castle
            (snd (snd (process_castles generate completions castle_data batch_size db [])))) =
        concat (map snd ?todo)"
    by (simp only: process_castles_events [OF b] map_append concat_append batch_loop_created)
       simp
  with b c show ?thesis by simp
qed

theorem partition_fidelity_witness:
  "(0::int) < 2
   \<and> batches [castle_named ''X1'', castle_named ''X2'', castle_named ''X3''] 2 =
       Inr [(0, [castle_named ''X1'', castle_named ''X2'']), (2, [castle_named ''X3''])]
   \<and> length (projr (batches [castle_named ''X1'', castle_named ''X2'', castle_named ''X3''] 2)) = 2
   \<and> concat (map snd
         (projr (batches [castle_named ''X1'', castle_named ''X2'', castle_named ''X3''] 2))) =
       [castle_named ''X1'', castle_named ''X2'', castle_named ''X3'']
   \<and> concat (map created_castle
         (snd (snd (process_castles (failing_for ''X2'') (\<lambda>k. [(0, 1)])
            [castle_named ''X1'', castle_named ''X2'', castle_named ''X3''] 2
            (setup_database empty_database) [])))) =
       [castle_named ''X1'', castle_named ''X2'', castle_named ''X3'']"
proof -
  have h: "(0::int) < 2" by simp
  have c: "nat \<lceil>real (length [castle_named ''X1'', castle_named ''X2'', castle_named ''X3''])
              / real_of_int 2\<rceil> = 2"
    by (simp add: ceiling_div)
  have u: "[0..<2] = [0, Suc 0]" by (simp add: upt_rec)
  show ?thesis
    using partition_fidelity [OF h, of
        "[castle_named ''X1'', castle_named ''X2'', castle_named ''X3'']"
        "failing_for ''X2''" "\<lambda>k. [(0, 1)]" "setup_database empty_database"]
    unfolding c by (simp add: u)
qed

section \<open>What a run returns and when it raises\<close>








section \<open>The pause after each batch\<close>

lemma pause_filter:
  "sum_list (map pause (filter is_sleep es)) = sum_list (map pause es)"
  by (induction es rule: list.induct) (auto elim: is_sleep.elims)

lemma pause_replicate: "sum_list (map pause (replicate n (Sleep d))) = n * d"
  by (induction n) simp_all

lemma process_castles_sleeps:
  assumes "batches castle_data batch_size = Inr todo"
  shows "filter is_sleep
           (snd (snd (process_castles generate completions castle_data batch_size db logged))) =
         filter is_sleep logged @ replicate (length todo) (Sleep 1)"
  by (simp add: process_castles_events [OF assms] batch_loop_sleeps)

lemma length_batches:
  "0 < B \<Longrightarrow> batches xs B = Inr todo \<Longrightarrow>
     length todo = nat \<lceil>real (length xs) / real_of_int B\<rceil>"
  by (auto simp add: batches_pos)

lemma batches_nonempty:
  assumes "0 < B" and "xs \<noteq> []"
  shows "0 < nat \<lceil>real (length xs) / real_of_int B\<rceil>"
proof -
  have "length xs \<le> nat \<lceil>real (length xs) / real_of_int B\<rceil> * nat B"
    using assms(1) by (rule ceiling_covers)
  moreover have "0 < length xs" using assms(2) by simp
  ultimately show ?thesis by (cases "nat \<lceil>real (length xs) / real_of_int B\<rceil>") simp_all
qed

lemma process_castles_pause:
  assumes "0 < batch_size"
  shows "sum_list (map pause
           (snd (snd (process_castles generate completions castle_data batch_size db [])))) =
         nat \<lceil>real (length castle_data) / real_of_int batch_size\<rceil>"
proof -
  obtain todo where t: "batches castle_data batch_size = Inr todo"
    using assms by (simp add: batches_pos)
  have "sum_list (map pause
           (snd (snd (process_castles generate completions castle_data batch_size db [])))) =
        sum_list (map pause (filter is_sleep
           (snd (snd (process_castles generate completions castle_data batch_size db [])))))"
    by (simp only: pause_filter)
  also have "\<dots> = length todo"
    by (simp only: process_castles_sleeps [OF t] pause_replicate filter.simps append_Nil
        mult_1_right)
  finally show ?thesis using length_batches [OF assms t] by simp
qed

text \<open>
  Claim C8, as the code has it. After each batch the dispatcher pauses for exactly 1
  second (line 527): a run pauses once per batch and the pauses add up to the number of
  batches. The duration is a constant of the code; no argument of the call changes it.
\<close>

theorem pacing_delay_fixed:
  assumes "0 < batch_size"
  shows "filter is_sleep
           (snd (snd (process_castles generate completions castle_data batch_size db []))) =
         replicate (nat \<lceil>real (length castle_data) / real_of_int batch_size\<rceil>) (Sleep 1)
       \<and> sum_list (map pause
           (snd (snd (process_castles generate completions castle_data batch_size db [])))) =
         nat \<lceil>real (length castle_data) / real_of_int batch_size\<rceil>
       \<and> filter is_sleep
           (snd (snd (process_thousands_of_castles generate completions castle_data_source
                        batch_size db'))) = [Sleep 1]"
proof -
  obtain todo where t: "batches castle_data batch_size = Inr todo"
    using assms by (simp add: batches_pos)
  have a: "filter is_sleep
           (snd (snd (process_castles generate completions castle_data batch_size db []))) =
         replicate (nat \<lceil>real (length castle_data) / real_of_int batch_size\<rceil>) (Sleep 1)"
    using length_batches [OF assms t] by (simp add: process_castles_sleeps [OF t])
  obtain todo' where t': "batches sample_castles batch_size = Inr todo'"
    using assms by (simp add: batches_pos)
  have "\<lceil>real_of_int 1 / real_of_int batch_size\<rceil> = (1 + batch_size - 1) div batch_size"
    using assms by (rule ceiling_div)
  then have "nat \<lceil>real (length sample_castles) / real_of_int batch_size\<rceil> = 1"
    using assms by (simp add: sample_castles_def)
  then have l: "length todo' = 1"
    using length_batches [OF assms t'] by simp
  have b: "filter is_sleep
           (snd (snd (process_thousands_of_castles generate completions castle_data_source
                        batch_size db'))) = [Sleep 1]"
    using l
    by (simp add: process_thousands_of_castles_def load_external_castle_data_def
        process_castles_sleeps [OF t'])
  show ?thesis
    using a b process_castles_pause [OF assms] by simp
qed

theorem pacing_delay_fixed_witness:
  "(0::int) < 2
   \<and> filter is_sleep
        (snd (snd (process_castles (failing_for ''X2'') (\<lambda>k. [(0, 1)])
          [castle_named ''X1'', castle_named ''X2'', castle_named ''X3''] 2
          (setup_database empty_database) []))) = [Sleep 1, Sleep 1]
   \<and> filter is_sleep
        (snd (snd (process_thousands_of_castles (failing_for ''X2'') (\<lambda>k. [(0, 1)])
          ''worker4_castle_pipeline.json'' 2 empty_database))) = [Sleep 1]"
proof -
  have h: "(0::int) < 2" by simp
  have c: "nat \<lceil>real (length [castle_named ''X1'', castle_named ''X2'', castle_named ''X3''])
              / real_of_int 2\<rceil> = 2"
    by (simp add: ceiling_div)
  show ?thesis
    using pacing_delay_fixed [OF h, of "failing_for ''X2''" "\<lambda>k. [(0, 1)]"
        "[castle_named ''X1'', castle_named ''X2'', castle_named ''X3'']"
        "setup_database empty_database" "''worker4_castle_pipeline.json''" empty_database]
    unfolding c by (simp add: numeral_2_eq_2)
qed

text \<open>
  No operation, completion order, castle list, positive \<open>batch_size\<close> or database
  makes a run that has a batch pause for a total of zero.
\<close>

theorem pause_is_never_zero:
  "\<not> (\<exists>generate completions castle_data batch_size db.
         0 < batch_size \<and> castle_data \<noteq> [] \<and>
         sum_list (map pause
           (snd (snd (process_castles generate completions castle_data batch_size db [])))) = 0)"
proof
  assume "\<exists>generate completions castle_data batch_size db.
         0 < batch_size \<and> castle_data \<noteq> [] \<and>
         sum_list (map pause
           (snd (snd (process_castles generate completions castle_data batch_size db [])))) = 0"
  then obtain generate completions castle_data batch_size db
    where b: "(0::int) < batch_size" and n: "castle_data \<noteq> ([]::CastleData list)"
      and z: "sum_list (map pause
           (snd (snd (process_castles generate completions castle_data batch_size db [])))) = 0"
    by blast
  from z have "nat \<lceil>real (length castle_data) / real_of_int batch_size\<rceil> = 0"
    by (simp only: process_castles_pause [OF b])
  with batches_nonempty [OF b n] show False by simp
qed

section \<open>Batches do not overlap\<close>

lemma batch_nos_append: "batch_nos (xs @ ys) = batch_nos xs @ batch_nos ys"
  by (induction xs rule: batch_nos.induct) simp_all

lemma batch_nos_filter: "batch_nos (filter in_batch es) = batch_nos es"
  by (induction es rule: batch_nos.induct) simp_all

lemma batch_nos_map: "batch_nos (map (In_batch k) es) = replicate (length es) k"
  by (induction es) simp_all

lemma batch_nos_member: "In_batch k e \<in> set es \<Longrightarrow> k \<in> set (batch_nos es)"
  by (induction es rule: batch_nos.induct) auto

lemma batch_nos_blocks:
  "batch_nos (concat (map (\<lambda>k. map (In_batch (f k)) (tr k)) ks)) =
     concat (map (\<lambda>k. replicate (length (tr k)) (f k)) ks)"
  by (induction ks) (simp_all add: batch_nos_append batch_nos_map)

lemma sorted_blocks:
  fixes f :: "'a \<Rightarrow> int"
  shows "sorted (map f ks) \<Longrightarrow> sorted (concat (map (\<lambda>k. replicate (m k) (f k)) ks))"
proof (induction ks)
  case Nil
  then show ?case by simp
next
  case (Cons k ks)
  then have "\<forall>y \<in> set (concat (map (\<lambda>k. replicate (m k) (f k)) ks)). f k \<le> y"
    by auto
  with Cons show ?case by (auto simp add: sorted_append)
qed

lemma todo_blocks:
  assumes "0 < B"
  shows "concat (map (\<lambda>(i, b). map (In_batch (i div B + 1)) (tr (i div B + 1) b))
           (map (\<lambda>k. (int k * B, c k)) ks)) =
         concat (map (\<lambda>k. map (In_batch (int k + 1)) (tr (int k + 1) (c k))) ks)"
  using assms by (induction ks) simp_all

lemma process_castles_tasks:
  assumes "0 < B"
  shows "filter in_batch (snd (snd (process_castles generate completions castle_data B db []))) =
     concat (map (\<lambda>k. map (In_batch (int k + 1))
                    (batch_trace generate (completions (int k + 1))
                       (take (nat B) (drop (k * nat B) castle_data))))
              [0..<nat \<lceil>real (length castle_data) / real_of_int B\<rceil>])"
proof -
  let ?todo = "map (\<lambda>k. (int k * B, take (nat B) (drop (k * nat B) castle_data)))
                  [0..<nat \<lceil>real (length castle_data) / real_of_int B\<rceil>]"
  have b: "batches castle_data B = Inr ?todo"
    using assms by (rule batches_pos)
  have "filter in_batch (snd (snd (process_castles generate completions castle_data B db []))) =
        concat (map (\<lambda>(i, b). map (In_batch (i div B + 1))
                    (batch_trace generate (completions (i div B + 1)) b)) ?todo)"
    by (simp add: process_castles_events [OF b] batch_loop_tasks)
  also have "\<dots> = concat (map (\<lambda>k. map (In_batch (int k + 1))
                    (batch_trace generate (completions (int k + 1))
                       (take (nat B) (drop (k * nat B) castle_data))))
              [0..<nat \<lceil>real (length castle_data) / real_of_int B\<rceil>])"
    using todo_blocks [OF assms,
        of "\<lambda>k b. batch_trace generate (completions k) b"
           "\<lambda>k. take (nat B) (drop (k * nat B) castle_data)"]
    by simp
  finally show ?thesis .
qed

lemma process_castles_batch_nos_sorted:
  assumes "0 < B"
  shows "sorted (batch_nos (snd (snd (process_castles generate completions castle_data B db []))))"
proof -
  have "sorted (map (\<lambda>k. int k + 1) [0..<n])" for n
    by (induction n) (auto simp add: sorted_append)
  then have "sorted (batch_nos (filter in_batch
               (snd (snd (process_castles generate completions castle_data B db [])))))"
    by (simp only: process_castles_tasks [OF assms] batch_nos_blocks sorted_blocks)
  then show ?thesis by (simp only: batch_nos_filter)
qed

lemma all_settle_member:
  assumes "all_settle completions castle_batch" and "i < length castle_batch"
  shows "Task_done i \<in> set (batch_trace generate completions castle_batch)"
proof -
  have "set (map fst completions) = set (sort (map fst completions))" by simp
  also have "\<dots> = {0..<length castle_batch}"
    using assms(1) by (simp only: all_settle_def set_upt)
  finally have "i \<in> set (map fst completions)" using assms(2) by simp
  then show ?thesis by (auto simp add: batch_trace_def)
qed

text \<open>
  Claim C6. In the events of a run with a positive \<open>batch_size\<close>, once an event of
  batch \<open>k'\<close> has happened (such as the creation of one of its tasks) no event of an
  earlier batch \<open>k\<close> follows (such as a task of it settling); and every task of a
  batch whose tasks all settle does settle in the run. So every task of batch \<open>k\<close> has
  settled before any task of batch \<open>k + 1\<close> is created.
\<close>

theorem batch_barrier:
  assumes "0 < batch_size"
  shows "(snd (snd (process_castles generate completions castle_data batch_size db [])) =
            before @ In_batch k' e' # after \<and> k < k'
          \<longrightarrow> In_batch k e \<notin> set after)
       \<and> (m < nat \<lceil>real (length castle_data) / real_of_int batch_size\<rceil>
          \<and> all_settle (completions (int m + 1))
                (take (nat batch_size) (drop (m * nat batch_size) castle_data))
          \<and> i < length (take (nat batch_size) (drop (m * nat batch_size) castle_data))
          \<longrightarrow> In_batch (int m + 1) (Task_done i)
                \<in> set (snd (snd (process_castles generate completions castle_data
                                   batch_size db []))))"
proof (intro conjI impI)
  assume a: "snd (snd (process_castles generate completions castle_data batch_size db [])) =
            before @ In_batch k' e' # after \<and> k < k'"
  have "sorted (batch_nos (before @ In_batch k' e' # after))"
    using process_castles_batch_nos_sorted [OF assms, of generate completions castle_data db] a
    by simp
  then have later: "\<forall>y \<in> set (batch_nos after). k' \<le> y"
    by (simp add: batch_nos_append sorted_append)
  show "In_batch k e \<notin> set after"
  proof
    assume "In_batch k e \<in> set after"
    then have "k \<in> set (batch_nos after)" by (rule batch_nos_member)
    with later have "k' \<le> k" by blast
    with a show False by simp
  qed
next
  let ?n = "nat \<lceil>real (length castle_data) / real_of_int batch_size\<rceil>"
  let ?b = "take (nat batch_size) (drop (m * nat batch_size) castle_data)"
  assume a: "m < ?n \<and> all_settle (completions (int m + 1)) ?b \<and> i < length ?b"
  then have "Task_done i \<in> set (batch_trace generate (completions (int m + 1)) ?b)"
    by (simp add: all_settle_member)
  then have "In_batch (int m + 1) (Task_done i)
      \<in> set (concat (map (\<lambda>k. map (In_batch (int k + 1))
                    (batch_trace generate (completions (int k + 1))
                       (take (nat batch_size) (drop (k * nat batch_size) castle_data))))
              [0..<?n]))"
    using a by auto
  then have "In_batch (int m + 1) (Task_done i)
      \<in> set (filter in_batch
           (snd (snd (process_castles generate completions castle_data batch_size db []))))"
    by (simp only: process_castles_tasks [OF assms])
  then show "In_batch (int m + 1) (Task_done i)
                \<in> set (snd (snd (process_castles generate completions castle_data
                                   batch_size db [])))"
    by simp
qed

lemma scenario_batches:
  "batches [castle_named ''X1'', castle_named ''X2'', castle_named ''X3''] 2 =
     Inr [(0, [castle_named ''X1'', castle_named ''X2'']), (2, [castle_named ''X3''])]"
proof -
  have c: "nat \<lceil>real (length [castle_named ''X1'', castle_named ''X2'', castle_named ''X3''])
              / real_of_int 2\<rceil> = 2"
    by (simp add: ceiling_div)
  have u: "[0..<2] = [0, Suc 0]" by (simp add: upt_rec)
  have h: "(0::int) < 2" by simp
  show ?thesis
    using batches_pos [OF h, of "[castle_named ''X1'', castle_named ''X2'', castle_named ''X3'']"]
    unfolding c by (simp add: u)
qed

lemma scenario_events:
  "snd (snd (process_castles (failing_for ''X2'')
          (\<lambda>k. if k = 1 then [(1, 10), (0, 11)] else [(0, 20)])
          [castle_named ''X1'', castle_named ''X2'', castle_named ''X3''] 2
          (setup_database empty_database) [])) =
     [Info_Processing_batch 1 2,
      In_batch 1 (Task_created 0 (castle_named ''X1'')),
      In_batch 1 (Task_created 1 (castle_named ''X2'')),
      In_batch 1 (Task_done 1),
      In_batch 1 (Task_done 0),
      In_batch 1 (Error_processing ''X2'' ''operation failed''),
      Info_Completed_batch 1 3,
      Sleep 1]
     @ Info_Processing_batch 2 1
     # In_batch 2 (Task_created 0 (castle_named ''X3''))
     # [In_batch 2 (Task_done 0),
        Info_Completed_batch 2 3,
        Sleep 1,
        Info_Completed 2 3]"
  using process_castles_events [OF scenario_batches, of "failing_for ''X2''"
      "\<lambda>k. if k = 1 then [(1, 10), (0, 11)] else [(0, 20)]"
      "setup_database empty_database" "[]"]
  by (simp add: process_castle_batch_eq Let_def successes_def failures_def failing_for_def
      castle_named_def enumerate_eq_zip upt_rec)

theorem batch_barrier_witness:
  "(0::int) < 2
   \<and> (1::int) < 2
   \<and> In_batch 1 (Task_done 0)
       \<notin> set [In_batch 2 (Task_done 0), Info_Completed_batch 2 3, Sleep 1, Info_Completed 2 3]
   \<and> all_settle [(1, 10), (0, 11)] [castle_named ''X1'', castle_named ''X2'']
   \<and> In_batch 1 (Task_done 0)
       \<in> set (snd (snd (process_castles (failing_for ''X2'')
                 (\<lambda>k. if k = 1 then [(1, 10), (0, 11)] else [(0, 20)])
                 [castle_named ''X1'', castle_named ''X2'', castle_named ''X3''] 2
                 (setup_database empty_database) [])))"
proof -
  have h: "(0::int) < 2" by simp
  have c: "nat \<lceil>real (length [castle_named ''X1'', castle_named ''X2'', castle_named ''X3''])
              / real_of_int 2\<rceil> = 2"
    by (simp add: ceiling_div)
  have s: "all_settle [(1, 10), (0, 11)] [castle_named ''X1'', castle_named ''X2'']"
    by (simp add: all_settle_def upt_rec)
  show ?thesis
    using s batch_barrier [OF h, where generate = "failing_for ''X2''"
        and completions = "\<lambda>k. if k = 1 then [(1, 10), (0, 11)] else [(0, 20)]"
        and castle_data = "[castle_named ''X1'', castle_named ''X2'', castle_named ''X3'']"
        and db = "setup_database empty_database"
        and before = "[Info_Processing_batch 1 2,
            In_batch 1 (Task_created 0 (castle_named ''X1'')),
            In_batch 1 (Task_created 1 (castle_named ''X2'')),
            In_batch 1 (Task_done 1),
            In_batch 1 (Task_done 0),
            In_batch 1 (Error_processing ''X2'' ''operation failed''),
            Info_Completed_batch 1 3,
            Sleep 1,
            Info_Processing_batch 2 1]"
        and k' = 2 and e' = "Task_created 0 (castle_named ''X3'')"
        and after = "[In_batch 2 (Task_done 0), Info_Completed_batch 2 3, Sleep 1,
            Info_Completed 2 3]"
        and k = 1 and e = "Task_done 0" and m = 0 and i = 0]
    unfolding c scenario_events by simp
qed

end
